theory Spec2Isabelle
  imports Main "HOL-Library.Word"
begin

section \<open>Options (options.go)\<close>

text \<open>
  \<^verbatim>\<open>type EntryIdxMode int\<close>: a mode is a Go \<^verbatim>\<open>int\<close>. The constant block of
  options.go declares two modes by \<^verbatim>\<open>iota\<close>.
\<close>

type_synonym EntryIdxMode = int

definition HintAndRAMIdxMode :: EntryIdxMode where
  "HintAndRAMIdxMode = 0"

definition HintAndMemoryMapIdxMode :: EntryIdxMode where
  "HintAndMemoryMapIdxMode = 1"

record Options =
  Dir :: string
  EntryIdxMode :: EntryIdxMode
  SegmentSize :: int
  NodeNum :: int

definition defaultSegmentSize :: int where
  "defaultSegmentSize = 64 * 1024 * 1024"

definition DefaultOptions :: Options where
  "DefaultOptions =
     \<lparr>Dir = '''', EntryIdxMode = HintAndRAMIdxMode,
      SegmentSize = defaultSegmentSize, NodeNum = 1\<rparr>"

section \<open>The iterator (Iterator, SetNext, Seek)\<close>

subsection \<open>Data the iterator reads\<close>

type_synonym bytes = "8 word list"

text \<open>
  \<^verbatim>\<open>compare(a, b)\<close> is the byte-lexicographic three-way comparison of two
  \<^verbatim>\<open>[]byte\<close> (the result is negative, zero or positive).
\<close>

fun compare :: "bytes \<Rightarrow> bytes \<Rightarrow> int" where
  "compare [] [] = 0"
| "compare [] (b # bs) = - 1"
| "compare (a # as) [] = 1"
| "compare (a # as) (b # bs) =
     (if a < b then - 1 else if b < a then 1 else compare as bs)"

datatype error =
    ErrTxClosed
  | ErrIO string
  | ErrHintIdx "64 word" error

text \<open>A Go call either returns or panics (nil dereference, index out of range,
  failed type assertion).\<close>

datatype 'a outcome = Panic | Return 'a

record MetaData =
  Flag :: "16 word"
  TTL :: "32 word"
  Timestamp :: "64 word"

record Entry =
  Key :: bytes
  Value :: bytes
  Meta :: MetaData

record Hint =
  hint_Key :: bytes
  FileID :: "64 word"
  hint_Meta :: MetaData
  DataPos :: "64 word"

record Record =
  rec_H :: Hint
  rec_E :: "Entry option"

text \<open>
  An element of \<^verbatim>\<open>pointers []interface{}\<close> is nil, a \<^verbatim>\<open>*Node\<close> or a
  \<^verbatim>\<open>*Record\<close>. The iterator only reads nodes, so a node is a value.
\<close>

datatype 'n ptr = PNil | PNode 'n | PRecord Record

datatype Node = Node (Keys: "bytes list") (pointers: "Node ptr list") (KeysNum: int)

text \<open>
  Package-level constants that the iterator uses and the listed sources do not
  declare: the fan-out \<^verbatim>\<open>order\<close>, the two index modes the iterator tests for, and
  the deletion flag. They are parameters of the model.
\<close>

record Consts =
  order :: int
  HintKeyAndRAMIdxMode :: EntryIdxMode
  HintKeyValAndRAMIdxMode :: EntryIdxMode
  DataDeleteFlag :: "16 word"

text \<open>
  A data file handle as the iterator uses it: \<^verbatim>\<open>df.ReadAt(off)\<close> and
  \<^verbatim>\<open>df.rwManager.Release()\<close>. The file manager and the files are outside the
  listed sources; their results are parameters.
\<close>

record DataFile =
  ReadAt :: "int \<Rightarrow> error + Entry"
  Release :: "error option"

text \<open>
  The B+ tree of a bucket as the iterator uses it: the field \<^verbatim>\<open>FirstKey\<close> and the
  method \<^verbatim>\<open>FindLeaf\<close>, whose body is outside the listed sources and is a parameter
  (\<open>None\<close> is the nil node).
\<close>

record BPTree =
  FirstKey :: bytes
  FindLeaf :: "bytes \<Rightarrow> Node option"

record DB =
  opt :: Options
  BPTreeIdx :: "string \<rightharpoonup> BPTree"
  getDataPath :: "64 word \<Rightarrow> string"
  getDataFile :: "string \<Rightarrow> int \<Rightarrow> error + DataFile"
  clock :: nat

record Tx =
  tx_closed :: bool
  tx_db :: DB

record Iterator =
  it_tx :: Tx
  it_current :: "Node option"
  it_i :: int
  it_bucket :: string
  it_entry :: "Entry option"

definition newIterator :: "Tx \<Rightarrow> string \<Rightarrow> Iterator" where
  "newIterator tx bucket =
     \<lparr>it_tx = tx, it_current = None, it_i = 0, it_bucket = bucket, it_entry = None\<rparr>"

text \<open>
  Modelled from the spec: \<^verbatim>\<open>Tx.checkTxIsClosed\<close>, which is outside the listed
  sources. The spec's state error \<open>TxClosed\<close> is returned for a closed transaction.
\<close>

definition checkTxIsClosed :: "Tx \<Rightarrow> error option" where
  "checkTxIsClosed tx = (if tx_closed tx then Some ErrTxClosed else None)"

text \<open>
  Modelled from the spec: \<^verbatim>\<open>Record.IsExpired\<close>, which is outside the listed
  sources. A ttl of 0 is persistent; otherwise the record is expired strictly after
  ttl seconds from its timestamp. The clock reading is a field of the store.
\<close>

definition IsExpired :: "nat \<Rightarrow> Record \<Rightarrow> bool" where
  "IsExpired now r =
     (TTL (hint_Meta (rec_H r)) \<noteq> 0 \<and>
      unat (Timestamp (hint_Meta (rec_H r))) + unat (TTL (hint_Meta (rec_H r))) < now)"

text \<open>Go slice indexing: out of range panics.\<close>

definition index :: "'a list \<Rightarrow> int \<Rightarrow> 'a outcome" where
  "index xs j = (if 0 \<le> j \<and> j < int (length xs) then Return (xs ! nat j) else Panic)"

subsection \<open>Seek\<close>

text \<open>
  The loop of \<^verbatim>\<open>Seek\<close>:
  \<^verbatim>\<open>for it.i = 0; it.i < it.current.KeysNum && compare(it.current.Keys[it.i], key) < 0; { it.i++ }\<close>
  started at \<open>j\<close>; the result is the final \<^verbatim>\<open>it.i\<close>.
\<close>

function seek_loop :: "Node \<Rightarrow> bytes \<Rightarrow> int \<Rightarrow> int outcome" where
  "seek_loop n key j =
     (if j < KeysNum n then
        (case index (Keys n) j of
           Panic \<Rightarrow> Panic
         | Return k \<Rightarrow> if compare k key < 0 then seek_loop n key (j + 1) else Return j)
      else Return j)"
  by pat_completeness auto
termination
  by (relation "measure (\<lambda>(n, key, j). nat (KeysNum n - j))") auto

declare seek_loop.simps [simp del]

text \<open>
  \<^verbatim>\<open>Seek\<close>. A bucket that is not in \<^verbatim>\<open>BPTreeIdx\<close> gives a nil \<^verbatim>\<open>*BPTree\<close>, on which
  \<^verbatim>\<open>FindLeaf\<close> cannot read the tree: a panic. When \<^verbatim>\<open>FindLeaf\<close> returns nil the
  code sets \<^verbatim>\<open>it.i = -1\<close> and goes on to the loop, whose initialisation sets
  \<^verbatim>\<open>it.i = 0\<close> and whose condition reads \<^verbatim>\<open>it.current.KeysNum\<close> of the nil node.
\<close>

definition Seek :: "Iterator \<Rightarrow> bytes \<Rightarrow> Iterator outcome" where
  "Seek it key =
     (case BPTreeIdx (tx_db (it_tx it)) (it_bucket it) of
        None \<Rightarrow> Panic
      | Some tree \<Rightarrow>
          (let it1 = it\<lparr>it_current := FindLeaf tree key\<rparr>;
               it2 = (if it_current it1 = None then it1\<lparr>it_i := - 1\<rparr> else it1);
               it3 = it2\<lparr>it_i := 0\<rparr>
           in case it_current it3 of
                None \<Rightarrow> Panic
              | Some cur \<Rightarrow>
                  (case seek_loop cur key (it_i it3) of
                     Panic \<Rightarrow> Panic
                   | Return j \<Rightarrow> Return (it3\<lparr>it_i := j\<rparr>))))"


subsection \<open>SetNext\<close>

text \<open>
  Lines 35 to 40 of \<^verbatim>\<open>SetNext\<close>: a call without a current node seeks to the
  tree's \<^verbatim>\<open>FirstKey\<close> in the two RAM index modes, when the bucket has a tree.
\<close>

definition first_seek :: "Consts \<Rightarrow> Iterator \<Rightarrow> Iterator outcome" where
  "first_seek c it =
     (let db = tx_db (it_tx it) in
      if it_current it = None \<and>
         (EntryIdxMode (opt db) = HintKeyAndRAMIdxMode c \<or>
          EntryIdxMode (opt db) = HintKeyValAndRAMIdxMode c)
      then (case BPTreeIdx db (it_bucket it) of
              Some tree \<Rightarrow> Seek it (FirstKey tree)
            | None \<Rightarrow> Return it)
      else Return it)"

text \<open>
  Lines 42 to 48: a cursor past the keys of its leaf moves to the next leaf,
  \<^verbatim>\<open>pointers[order-1]\<close>, and the call returns \<^verbatim>\<open>(false, nil)\<close> when there is
  none. \<open>Inl\<close> is that early return, \<open>Inr\<close> goes on. Reading \<^verbatim>\<open>KeysNum\<close> of a nil
  current node panics.
\<close>

definition position ::
  "Consts \<Rightarrow> Iterator \<Rightarrow> (((bool \<times> error option) \<times> Iterator) + Iterator) outcome" where
  "position c it =
     (case first_seek c it of
        Panic \<Rightarrow> Panic
      | Return it1 \<Rightarrow>
          (case it_current it1 of
             None \<Rightarrow> Panic
           | Some cur \<Rightarrow>
               if it_i it1 \<ge> KeysNum cur then
                 (case index (pointers cur) (order c - 1) of
                    Panic \<Rightarrow> Panic
                  | Return (PNode nxt) \<Rightarrow>
                      Return (Inr (it1\<lparr>it_current := Some nxt, it_i := 0\<rparr>))
                  | Return _ \<Rightarrow>
                      Return (Inl ((False, None), it1\<lparr>it_current := None\<rparr>)))
               else Return (Inr it1)))"

text \<open>
  Lines 50 to 52: \<^verbatim>\<open>pointer := it.current.pointers[it.i]; record := pointer.(*Record); it.i++\<close>.
  The type assertion panics on anything that is not a record.
\<close>

definition fetch :: "Iterator \<Rightarrow> (Record \<times> Iterator) outcome" where
  "fetch it =
     (case it_current it of
        None \<Rightarrow> Panic
      | Some cur \<Rightarrow>
          (case index (pointers cur) (it_i it) of
             Return (PRecord record) \<Rightarrow> Return (record, it\<lparr>it_i := it_i it + 1\<rparr>)
           | _ \<Rightarrow> Panic))"

text \<open>
  Lines 58 to 87: the entry of a live record, read from its data file in
  \<^verbatim>\<open>HintKeyAndRAMIdxMode\<close>, taken from the record in \<^verbatim>\<open>HintKeyValAndRAMIdxMode\<close>;
  in any other mode the call returns \<^verbatim>\<open>(false, nil)\<close>.
\<close>

definition deliver ::
  "Consts \<Rightarrow> Iterator \<Rightarrow> Record \<Rightarrow> (bool \<times> error option) \<times> Iterator" where
  "deliver c it record =
     (let db = tx_db (it_tx it) in
      if EntryIdxMode (opt db) = HintKeyAndRAMIdxMode c then
        (case getDataFile db (getDataPath db (FileID (rec_H record))) (SegmentSize (opt db)) of
           Inl err \<Rightarrow> ((False, Some err), it)
         | Inr df \<Rightarrow>
             (case ReadAt df (sint (DataPos (rec_H record))) of
                Inr item \<Rightarrow>
                  (case Release df of
                     Some err \<Rightarrow> ((False, Some err), it)
                   | None \<Rightarrow> ((True, None), it\<lparr>it_entry := Some item\<rparr>))
              | Inl err \<Rightarrow>
                  (case Release df of
                     Some err' \<Rightarrow> ((False, Some err'), it)
                   | None \<Rightarrow>
                       ((False, Some (ErrHintIdx (DataPos (rec_H record)) err)), it))))
      else if EntryIdxMode (opt db) = HintKeyValAndRAMIdxMode c then
        ((True, None), it\<lparr>it_entry := rec_E record\<rparr>)
      else ((False, None), it))"

text \<open>A record the iterator skips (line 54).\<close>

definition skipped :: "Consts \<Rightarrow> nat \<Rightarrow> Record \<Rightarrow> bool" where
  "skipped c now record =
     (Flag (hint_Meta (rec_H record)) = DataDeleteFlag c \<or> IsExpired now record)"

text \<open>
  The recursion of \<^verbatim>\<open>SetNext\<close> (a skipped record makes it call itself) ends: a
  first call gets a current node, a move to the next leaf makes the node smaller,
  and otherwise the cursor moves right inside its leaf.
\<close>

definition cursor_rank :: "Iterator \<Rightarrow> nat \<times> nat \<times> nat" where
  "cursor_rank it =
     (case it_current it of
        None \<Rightarrow> (1, 0, 0)
      | Some cur \<Rightarrow> (0, size cur, nat (KeysNum cur - it_i it)))"

definition rank_less :: "(nat \<times> nat \<times> nat) rel" where
  "rank_less = less_than <*lex*> less_than <*lex*> less_than"

lemma ptr_size_mem:
  "PNode nxt \<in> set ps \<Longrightarrow> size nxt < Suc (size_list (size_ptr size) ps)"
  by (induction ps) auto

lemma index_mem: "index xs j = Return x \<Longrightarrow> x \<in> set xs"
  by (auto simp: index_def split: if_splits)

lemma index_PNode_size:
  "index (pointers cur) j = Return (PNode nxt) \<Longrightarrow> size nxt < size cur"
  using ptr_size_mem[of nxt "pointers cur"] index_mem[of "pointers cur" j "PNode nxt"]
  by (cases cur) simp

lemma fetch_position_rank:
  assumes "position c it = Return (Inr it1)" and "fetch it1 = Return (r, it2)"
  shows "(cursor_rank it2, cursor_rank it) \<in> rank_less"
proof (cases "it_current it")
  case None
  from assms have "it_current it2 \<noteq> None"
    by (auto simp: fetch_def split: option.splits outcome.splits ptr.splits)
  with None show ?thesis
    by (auto simp: cursor_rank_def rank_less_def split: option.splits)
next
  case (Some cur)
  with assms show ?thesis
    by (auto simp: position_def first_seek_def fetch_def cursor_rank_def rank_less_def Let_def
        dest: index_PNode_size
        split: option.splits outcome.splits if_splits ptr.splits)
qed

function SetNext ::
  "Consts \<Rightarrow> Iterator \<Rightarrow> ((bool \<times> error option) \<times> Iterator) outcome" where
  "SetNext c it =
     (case checkTxIsClosed (it_tx it) of
        Some err \<Rightarrow> Return ((False, Some err), it)
      | None \<Rightarrow>
          if it_i it = - 1 then Return ((False, None), it)
          else
            (case position c it of
               Panic \<Rightarrow> Panic
             | Return (Inl res) \<Rightarrow> Return res
             | Return (Inr it1) \<Rightarrow>
                 (case fetch it1 of
                    Panic \<Rightarrow> Panic
                  | Return (record, it2) \<Rightarrow>
                      if skipped c (clock (tx_db (it_tx it2))) record then SetNext c it2
                      else Return (deliver c it2 record))))"
  by pat_completeness auto
termination
  by (relation "inv_image rank_less (\<lambda>(c, it). cursor_rank it)")
     (auto simp: rank_less_def intro: fetch_position_rank[unfolded rank_less_def])

text \<open>\<^verbatim>\<open>Entry\<close>: the current entry.\<close>

definition Entry_of :: "Iterator \<Rightarrow> Entry option" where
  "Entry_of it = it_entry it"


declare SetNext.simps [simp del]

subsection \<open>The leaf chain an iterator walks\<close>

text \<open>
  The leaves of a B+ tree are chained through their last pointer. The chain from a
  leaf, the (key, record) pairs it holds, and what is left of it at a cursor, state
  what \<^verbatim>\<open>SetNext\<close> and \<^verbatim>\<open>Seek\<close> do. A well-formed leaf has between 1 and
  \<^verbatim>\<open>order - 1\<close> keys, \<^verbatim>\<open>order\<close> pointers, and a record under each key.
\<close>

definition next_leaf :: "Consts \<Rightarrow> Node \<Rightarrow> Node option" where
  "next_leaf c n =
     (case index (pointers n) (order c - 1) of
        Return (PNode m) \<Rightarrow> Some m
      | _ \<Rightarrow> None)"

lemma next_leaf_size: "next_leaf c n = Some m \<Longrightarrow> size m < size n"
  by (auto simp: next_leaf_def dest: index_PNode_size split: outcome.splits ptr.splits)

function leaves :: "Consts \<Rightarrow> Node \<Rightarrow> Node list" where
  "leaves c n = n # (case next_leaf c n of None \<Rightarrow> [] | Some m \<Rightarrow> leaves c m)"
  by pat_completeness auto
termination
  by (relation "measure (\<lambda>(c, n). size n)") (auto dest: next_leaf_size)

fun records :: "Node ptr list \<Rightarrow> Record list" where
  "records (PRecord r # ps) = r # records ps"
| "records _ = []"

definition leaf_items :: "Node \<Rightarrow> (bytes \<times> Record) list" where
  "leaf_items n = zip (Keys n) (records (take (nat (KeysNum n)) (pointers n)))"

fun is_record :: "Node ptr \<Rightarrow> bool" where
  "is_record (PRecord r) = True"
| "is_record _ = False"

definition wf_leaf :: "Consts \<Rightarrow> Node \<Rightarrow> bool" where
  "wf_leaf c n =
     (1 \<le> KeysNum n \<and> KeysNum n < order c \<and>
      int (length (pointers n)) = order c \<and>
      int (length (Keys n)) = order c - 1 \<and>
      list_all is_record (take (nat (KeysNum n)) (pointers n)))"

definition cursor_items :: "Consts \<Rightarrow> Iterator \<Rightarrow> (bytes \<times> Record) list" where
  "cursor_items c it =
     (case it_current it of
        None \<Rightarrow> []
      | Some n \<Rightarrow>
          drop (nat (it_i it)) (leaf_items n) @ concat (map leaf_items (tl (leaves c n))))"

definition wf_cursor :: "Consts \<Rightarrow> Iterator \<Rightarrow> bool" where
  "wf_cursor c it =
     (case it_current it of
        None \<Rightarrow> False
      | Some n \<Rightarrow> list_all (wf_leaf c) (leaves c n) \<and> 0 \<le> it_i it \<and> it_i it \<le> KeysNum n)"

lemma records_all: "list_all is_record ps \<Longrightarrow> length (records ps) = length ps"
  by (induction ps rule: records.induct) auto

lemma records_nth: "list_all is_record ps \<Longrightarrow> j < length ps \<Longrightarrow> ps ! j = PRecord (records ps ! j)"
proof (induction ps arbitrary: j rule: records.induct)
  case (1 r ps)
  then show ?case by (cases j) auto
qed auto

lemma wf_leaf_items_length: "wf_leaf c n \<Longrightarrow> length (leaf_items n) = nat (KeysNum n)"
  by (auto simp: wf_leaf_def leaf_items_def records_all)

lemma wf_leaf_nth:
  assumes "wf_leaf c n" "0 \<le> j" "j < KeysNum n"
  shows "leaf_items n ! nat j = (Keys n ! nat j, records (take (nat (KeysNum n)) (pointers n)) ! nat j)"
proof -
  let ?ps = "take (nat (KeysNum n)) (pointers n)"
  from assms have l: "list_all is_record ?ps" and len: "nat j < length ?ps"
    by (auto simp: wf_leaf_def)
  from len l have "nat j < length (records ?ps)" by (simp add: records_all)
  moreover from assms have "nat j < length (Keys n)" by (auto simp: wf_leaf_def)
  ultimately show ?thesis by (simp add: leaf_items_def)
qed

lemma wf_leaf_fetch:
  assumes "wf_leaf c n" "0 \<le> j" "j < KeysNum n"
  shows "index (pointers n) j = Return (PRecord (snd (leaf_items n ! nat j)))"
proof -
  let ?ps = "take (nat (KeysNum n)) (pointers n)"
  from assms have l: "list_all is_record ?ps" and len: "nat j < length ?ps"
    and inr: "j < int (length (pointers n))"
    by (auto simp: wf_leaf_def)
  have "?ps ! nat j = PRecord (records ?ps ! nat j)"
    using records_nth[OF l len] .
  moreover have "?ps ! nat j = pointers n ! nat j"
    using assms by simp
  ultimately show ?thesis using assms inr by (simp add: index_def wf_leaf_nth[OF assms])
qed



declare leaves.simps[simp del]

lemma leaves_tl: "tl (leaves c n) = (case next_leaf c n of None \<Rightarrow> [] | Some m \<Rightarrow> leaves c m)"
  by (subst leaves.simps) simp

lemma leaves_Cons: "leaves c n = n # tl (leaves c n)"
proof -
  have "\<exists>t. leaves c n = n # t" by (subst leaves.simps) simp
  then show ?thesis by auto
qed

lemma leaves_wf_head: "list_all (wf_leaf c) (leaves c n) \<Longrightarrow> wf_leaf c n"
  by (subst (asm) leaves.simps) simp

lemma leaves_wf_next:
  "list_all (wf_leaf c) (leaves c n) \<Longrightarrow> next_leaf c n = Some m \<Longrightarrow> list_all (wf_leaf c) (leaves c m)"
  by (subst (asm) leaves.simps) simp

lemma wf_leaf_items_nonempty: "wf_leaf c n \<Longrightarrow> leaf_items n \<noteq> []"
  using wf_leaf_items_length[of c n] by (auto simp: wf_leaf_def)

lemma position_stay:
  assumes "it_current it = Some n" "it_i it < KeysNum n"
  shows "position c it = Return (Inr it)"
  using assms by (simp add: position_def first_seek_def)

lemma position_move:
  assumes "it_current it = Some n" "KeysNum n \<le> it_i it" "next_leaf c n = Some m"
  shows "position c it = Return (Inr (it\<lparr>it_current := Some m, it_i := 0\<rparr>))"
  using assms by (auto simp: position_def first_seek_def next_leaf_def split: outcome.splits ptr.splits)

lemma position_end:
  assumes "it_current it = Some n" "KeysNum n \<le> it_i it" "next_leaf c n = None" "wf_leaf c n"
  shows "position c it = Return (Inl ((False, None), it\<lparr>it_current := None\<rparr>))"
  using assms by (auto simp: position_def first_seek_def next_leaf_def wf_leaf_def index_def split: outcome.splits ptr.splits)

lemma fetch_wf:
  assumes "it_current it = Some n" "wf_leaf c n" "0 \<le> it_i it" "it_i it < KeysNum n"
  shows "fetch it = Return (snd (leaf_items n ! nat (it_i it)), it\<lparr>it_i := it_i it + 1\<rparr>)"
  using assms wf_leaf_fetch[of c n "it_i it"] by (simp add: fetch_def)

lemma SetNext_empty:
  assumes op: "\<not> tx_closed (it_tx it)" and wf: "wf_cursor c it" and e: "cursor_items c it = []"
  shows "SetNext c it = Return ((False, None), it\<lparr>it_current := None\<rparr>)"
proof -
  from wf obtain n where n: "it_current it = Some n" and wfl: "list_all (wf_leaf c) (leaves c n)"
    and i: "0 \<le> it_i it" "it_i it \<le> KeysNum n"
    by (auto simp: wf_cursor_def split: option.splits)
  have wn: "wf_leaf c n" using wfl by (rule leaves_wf_head)
  from e n have d: "drop (nat (it_i it)) (leaf_items n) = []"
    and t: "concat (map leaf_items (tl (leaves c n))) = []"
    by (auto simp: cursor_items_def)
  from d wn i have ge: "KeysNum n \<le> it_i it"
    by (simp add: wf_leaf_items_length)
  have nl: "next_leaf c n = None"
  proof (cases "next_leaf c n")
    case (Some m)
    then have "wf_leaf c m" using leaves_wf_next[OF wfl Some] leaves_wf_head by blast
    then have "leaf_items m \<noteq> []" by (rule wf_leaf_items_nonempty)
    moreover have "tl (leaves c n) = leaves c m" using Some by (simp add: leaves_tl)
    moreover have "leaves c m = m # tl (leaves c m)" by (rule leaves_Cons)
    ultimately show ?thesis using t by (metis concat.simps(2) list.simps(9) append_is_Nil_conv)
  qed simp
  show ?thesis
    using op i position_end[OF n ge nl wn]
    by (subst SetNext.simps) (simp add: checkTxIsClosed_def)
qed

lemma SetNext_cons:
  assumes op: "\<not> tx_closed (it_tx it)" and wf: "wf_cursor c it"
    and e: "cursor_items c it = (k, r) # rest"
  shows "\<exists>n j. wf_cursor c (it\<lparr>it_current := Some n, it_i := j\<rparr>) \<and>
           cursor_items c (it\<lparr>it_current := Some n, it_i := j\<rparr>) = rest \<and>
           SetNext c it =
             (if skipped c (clock (tx_db (it_tx it))) r
              then SetNext c (it\<lparr>it_current := Some n, it_i := j\<rparr>)
              else Return (deliver c (it\<lparr>it_current := Some n, it_i := j\<rparr>) r))"
proof -
  from wf obtain n where n: "it_current it = Some n" and wfl: "list_all (wf_leaf c) (leaves c n)"
    and i: "0 \<le> it_i it" "it_i it \<le> KeysNum n"
    by (auto simp: wf_cursor_def split: option.splits)
  have wn: "wf_leaf c n" using wfl by (rule leaves_wf_head)
  have ne: "it_i it \<noteq> - 1" using i by simp
  show ?thesis
  proof (cases "it_i it < KeysNum n")
    case True
    let ?it2 = "it\<lparr>it_current := Some n, it_i := it_i it + 1\<rparr>"
    have eq: "it\<lparr>it_i := it_i it + 1\<rparr> = ?it2" using n by simp
    have lt: "nat (it_i it) < length (leaf_items n)"
      using True i wn by (simp add: wf_leaf_items_length)
    have "drop (nat (it_i it)) (leaf_items n) =
            leaf_items n ! nat (it_i it) # drop (nat (it_i it + 1)) (leaf_items n)"
      using lt i by (simp add: Cons_nth_drop_Suc nat_add_distrib)
    with e n have kr: "leaf_items n ! nat (it_i it) = (k, r)"
      and rest: "rest = drop (nat (it_i it + 1)) (leaf_items n) @ concat (map leaf_items (tl (leaves c n)))"
      by (auto simp: cursor_items_def)
    have 1: "wf_cursor c ?it2" using wfl i True by (simp add: wf_cursor_def)
    have 2: "cursor_items c ?it2 = rest" using rest by (simp add: cursor_items_def)
    have 3: "SetNext c it =
             (if skipped c (clock (tx_db (it_tx it))) r then SetNext c ?it2
              else Return (deliver c ?it2 r))"
      using op ne position_stay[OF n True] fetch_wf[OF n wn i(1) True] kr eq
      by (subst SetNext.simps) (simp add: checkTxIsClosed_def)
    from 1 2 3 show ?thesis by blast
  next
    case False
    then have ge: "KeysNum n \<le> it_i it" by simp
    then have d: "drop (nat (it_i it)) (leaf_items n) = []"
      using wn by (simp add: wf_leaf_items_length)
    with e n have t: "concat (map leaf_items (tl (leaves c n))) = (k, r) # rest"
      by (simp add: cursor_items_def)
    then obtain m where m: "next_leaf c n = Some m"
      by (cases "next_leaf c n") (auto simp: leaves_tl)
    have wfm: "list_all (wf_leaf c) (leaves c m)" using leaves_wf_next[OF wfl m] .
    have wm: "wf_leaf c m" using wfm by (rule leaves_wf_head)
    let ?it1 = "it\<lparr>it_current := Some m, it_i := 0\<rparr>"
    let ?it2 = "it\<lparr>it_current := Some m, it_i := 1\<rparr>"
    have tl: "tl (leaves c n) = leaves c m" using m by (simp add: leaves_tl)
    have lm: "leaves c m = m # tl (leaves c m)" by (rule leaves_Cons)
    have len: "0 < length (leaf_items m)" using wm wf_leaf_items_nonempty by blast
    have "concat (map leaf_items (leaves c m)) = leaf_items m @ concat (map leaf_items (tl (leaves c m)))"
      by (subst lm) simp
    moreover have "leaf_items m = leaf_items m ! 0 # drop 1 (leaf_items m)"
      using len by (metis Cons_nth_drop_Suc One_nat_def drop0)
    ultimately have kr: "leaf_items m ! 0 = (k, r)"
      and rest: "rest = drop 1 (leaf_items m) @ concat (map leaf_items (tl (leaves c m)))"
      using t tl by (metis append_Cons list.inject)+
    have k1: "0 < KeysNum m" using wm by (simp add: wf_leaf_def)
    have f: "fetch ?it1 = Return (snd (leaf_items m ! nat 0), ?it2)"
      using fetch_wf[of ?it1 m c] wm k1 by simp
    have 1: "wf_cursor c ?it2" using wfm wm by (simp add: wf_cursor_def wf_leaf_def)
    have 2: "cursor_items c ?it2 = rest" using rest by (simp add: cursor_items_def)
    have 3: "SetNext c it =
             (if skipped c (clock (tx_db (it_tx it))) r then SetNext c ?it2
              else Return (deliver c ?it2 r))"
      using op ne position_move[OF n ge m] f kr
      by (subst SetNext.simps) (simp add: checkTxIsClosed_def)
    from 1 2 3 show ?thesis by blast
  qed
qed


section \<open>Seek on a key without a leaf\<close>

text \<open>
  A bucket whose tree finds no leaf for any key (an empty tree), in a store with the
  default options, and an open transaction on it.
\<close>

definition empty_tree :: BPTree where
  "empty_tree = \<lparr>FirstKey = [], FindLeaf = (\<lambda>key. None)\<rparr>"

definition empty_tree_db :: DB where
  "empty_tree_db =
     \<lparr>opt = DefaultOptions, BPTreeIdx = [''bucket'' \<mapsto> empty_tree],
      getDataPath = (\<lambda>fid. ''''), getDataFile = (\<lambda>path size. Inl (ErrIO ''no file'')),
      clock = 0\<rparr>"

definition empty_tree_tx :: Tx where
  "empty_tree_tx = \<lparr>tx_closed = False, tx_db = empty_tree_db\<rparr>"

text \<open>
  C10. The claim: when \<^verbatim>\<open>FindLeaf\<close> returns nil for the key, \<^verbatim>\<open>Seek\<close> ends without
  reading a field of the nil node and leaves \<^verbatim>\<open>it.i = -1\<close>. The code does set
  \<^verbatim>\<open>it.i = -1\<close> but does not return there: the loop that follows starts with
  \<^verbatim>\<open>it.i = 0\<close> and its condition reads \<^verbatim>\<open>it.current.KeysNum\<close> of the nil node.
  So on every bucket with a tree and every key for which \<^verbatim>\<open>FindLeaf\<close> returns nil,
  \<^verbatim>\<open>Seek\<close> panics.
\<close>

theorem Seek_nil_leaf_panics:
  assumes "BPTreeIdx (tx_db (it_tx it)) (it_bucket it) = Some tree"
    and "FindLeaf tree key = None"
  shows "Seek it key = Panic"
  using assms by (simp add: Seek_def)

theorem Seek_nil_leaf_panics_witness:
  "BPTreeIdx (tx_db (it_tx (newIterator empty_tree_tx ''bucket'')))
       (it_bucket (newIterator empty_tree_tx ''bucket'')) = Some empty_tree \<and>
   FindLeaf empty_tree [1] = None \<and>
   Seek (newIterator empty_tree_tx ''bucket'') [1] = Panic"
  using Seek_nil_leaf_panics[of "newIterator empty_tree_tx ''bucket''" empty_tree "[1]"]
  by (simp add: newIterator_def empty_tree_tx_def empty_tree_db_def empty_tree_def)


section \<open>Iteration in key order\<close>

text \<open>\<^verbatim>\<open>deliver\<close> changes the entry of the iterator only, and depends on the
  iterator through its transaction only.\<close>

lemma deliver_frame:
  "it_current (snd (deliver c it r)) = it_current it"
  "it_i (snd (deliver c it r)) = it_i it"
  "it_tx (snd (deliver c it r)) = it_tx it"
  "it_bucket (snd (deliver c it r)) = it_bucket it"
  by (auto simp: deliver_def Let_def split: sum.splits option.splits)

lemma deliver_tx:
  assumes "it_tx it' = it_tx it"
  shows "fst (deliver c it' r) = fst (deliver c it r)"
    and "fst (deliver c it r) = (True, None) \<Longrightarrow>
         it_entry (snd (deliver c it' r)) = it_entry (snd (deliver c it r))"
  using assms by (auto simp: deliver_def Let_def split: sum.splits option.splits if_splits)

text \<open>One call of \<^verbatim>\<open>SetNext\<close> on a well-formed cursor passes the skipped records
  and delivers the first record that is not skipped, or ends at the end of the chain.\<close>

lemma SetNext_skips:
  assumes "\<not> tx_closed (it_tx it)" and "wf_cursor c it"
  shows "(dropWhile (\<lambda>(k, r). skipped c (clock (tx_db (it_tx it))) r) (cursor_items c it) = [] \<longrightarrow>
            (\<exists>j. SetNext c it = Return ((False, None), it\<lparr>it_current := None, it_i := j\<rparr>))) \<and>
         (\<forall>k r rest.
            dropWhile (\<lambda>(k, r). skipped c (clock (tx_db (it_tx it))) r) (cursor_items c it) = (k, r) # rest \<longrightarrow>
             (\<exists>n j. wf_cursor c (it\<lparr>it_current := Some n, it_i := j\<rparr>) \<and>
                   cursor_items c (it\<lparr>it_current := Some n, it_i := j\<rparr>) = rest \<and>
                   SetNext c it = Return (deliver c (it\<lparr>it_current := Some n, it_i := j\<rparr>) r)))"
  using assms
proof (induction "cursor_items c it" arbitrary: it)
  case Nil
  have "it\<lparr>it_current := None\<rparr> = it\<lparr>it_current := None, it_i := it_i it\<rparr>" by simp
  then show ?case
    using SetNext_empty[OF Nil(2,3) Nil(1)[symmetric]] Nil(1)[symmetric] by (simp, metis)
next
  case (Cons x xs)
  obtain k r where x: "x = (k, r)" by (cases x)
  from SetNext_cons[OF Cons(3,4), of k r xs] Cons(2) x
  obtain n j where wf: "wf_cursor c (it\<lparr>it_current := Some n, it_i := j\<rparr>)"
    and ci: "cursor_items c (it\<lparr>it_current := Some n, it_i := j\<rparr>) = xs"
    and sn: "SetNext c it =
             (if skipped c (clock (tx_db (it_tx it))) r
              then SetNext c (it\<lparr>it_current := Some n, it_i := j\<rparr>)
              else Return (deliver c (it\<lparr>it_current := Some n, it_i := j\<rparr>) r))"
    by auto
  let ?it2 = "it\<lparr>it_current := Some n, it_i := j\<rparr>"
  let ?P = "\<lambda>(k, r). skipped c (clock (tx_db (it_tx it))) r"
  show ?case
  proof (cases "skipped c (clock (tx_db (it_tx it))) r")
    case True
    have ih: "(dropWhile ?P xs = [] \<longrightarrow>
            (\<exists>j. SetNext c ?it2 = Return ((False, None), it\<lparr>it_current := None, it_i := j\<rparr>))) \<and>
         (\<forall>k r rest.
            dropWhile ?P xs = (k, r) # rest \<longrightarrow>
             (\<exists>n j. wf_cursor c (it\<lparr>it_current := Some n, it_i := j\<rparr>) \<and>
                   cursor_items c (it\<lparr>it_current := Some n, it_i := j\<rparr>) = rest \<and>
                   SetNext c ?it2 = Return (deliver c (it\<lparr>it_current := Some n, it_i := j\<rparr>) r)))"
      using Cons(1)[of ?it2] ci Cons(3) wf by simp
    have dw: "dropWhile ?P (cursor_items c it) = dropWhile ?P xs"
      using Cons(2)[symmetric] x True by simp
    have sn': "SetNext c it = SetNext c ?it2" using sn True by simp
    show ?thesis unfolding dw sn' using ih .
  next
    case False
    have dw: "dropWhile ?P (cursor_items c it) = (k, r) # xs"
      using Cons(2)[symmetric] x False by simp
    show ?thesis unfolding dw using wf ci sn False by auto
  qed
qed

text \<open>
  A run of the iterator: \<^verbatim>\<open>SetNext\<close> is called up to \<open>n\<close> times, as long as it
  returns \<^verbatim>\<open>(true, nil)\<close>; the run collects \<^verbatim>\<open>Entry()\<close> after each such call, and
  the result of the first call that does not return \<^verbatim>\<open>(true, nil)\<close>.
\<close>

fun collect ::
  "Consts \<Rightarrow> nat \<Rightarrow> Iterator \<Rightarrow>
   Entry option list \<times> ((bool \<times> error option) \<times> Iterator) outcome option" where
  "collect c 0 it = ([], None)"
| "collect c (Suc n) it =
     (case SetNext c it of
        Return ((True, None), it') \<Rightarrow>
          (case collect c n it' of (es, fin) \<Rightarrow> (Entry_of it' # es, fin))
      | res \<Rightarrow> ([], Some res))"

text \<open>The records ahead of a cursor that are neither deleted nor expired.\<close>

definition live_items :: "Consts \<Rightarrow> Iterator \<Rightarrow> (bytes \<times> Record) list" where
  "live_items c it =
     filter (\<lambda>(k, r). \<not> skipped c (clock (tx_db (it_tx it))) r) (cursor_items c it)"

text \<open>Strictly ascending keys, of the items of a leaf chain and of entries.\<close>

definition key_less :: "bytes \<times> Record \<Rightarrow> bytes \<times> Record \<Rightarrow> bool" where
  "key_less a b = (compare (fst a) (fst b) < 0)"

definition entry_before :: "Entry option \<Rightarrow> Entry option \<Rightarrow> bool" where
  "entry_before a b =
     (case (a, b) of
        (Some x, Some y) \<Rightarrow> compare (Key x) (Key y) < 0
      | _ \<Rightarrow> False)"

text \<open>The entry the iterator holds after delivering a record.\<close>

definition item_entry :: "Consts \<Rightarrow> Iterator \<Rightarrow> bytes \<times> Record \<Rightarrow> Entry option" where
  "item_entry c it kr = it_entry (snd (deliver c it (snd kr)))"

text \<open>A record is readable when delivering it succeeds with an entry under the
  key the leaf has for it.\<close>

definition readable :: "Consts \<Rightarrow> Iterator \<Rightarrow> bytes \<times> Record \<Rightarrow> bool" where
  "readable c it kr =
     (fst (deliver c it (snd kr)) = (True, None) \<and>
      map_option Key (item_entry c it kr) = Some (fst kr))"

lemma filter_dropWhile: "filter (\<lambda>x. \<not> P x) (dropWhile P xs) = filter (\<lambda>x. \<not> P x) xs"
  by (induction xs) auto

lemma collect_live:
  assumes "\<not> tx_closed (it_tx it)" and "wf_cursor c it" and "it_tx it = it_tx it0"
    and "\<forall>(k, r) \<in> set (cursor_items c it).
           \<not> skipped c (clock (tx_db (it_tx it0))) r \<longrightarrow> fst (deliver c it0 r) = (True, None)"
  shows "\<exists>it_end. collect c (Suc (length (live_items c it))) it =
           (map (item_entry c it0) (live_items c it),
            Some (Return ((False, None), it_end)))"
  using assms
proof (induction "length (cursor_items c it)" arbitrary: it rule: less_induct)
  case less
  let ?P = "\<lambda>(k, r). skipped c (clock (tx_db (it_tx it))) r"
  let ?Q = "\<lambda>(k, r). \<not> skipped c (clock (tx_db (it_tx it))) r"
  have Q: "?Q = (\<lambda>x. \<not> ?P x)" by auto
  note sk = SetNext_skips[OF less(2,3)]
  have li: "live_items c it = filter ?Q (dropWhile ?P (cursor_items c it))"
    unfolding live_items_def Q filter_dropWhile ..
  show ?case
  proof (cases "dropWhile ?P (cursor_items c it)")
    case Nil
    with sk obtain j where "SetNext c it = Return ((False, None), it\<lparr>it_current := None, it_i := j\<rparr>)"
      by auto
    moreover have "live_items c it = []" using li Nil by simp
    ultimately show ?thesis by simp
  next
    case (Cons x rest)
    obtain k r where x: "x = (k, r)" by (cases x)
    with sk Cons obtain n j where wf: "wf_cursor c (it\<lparr>it_current := Some n, it_i := j\<rparr>)"
      and ci: "cursor_items c (it\<lparr>it_current := Some n, it_i := j\<rparr>) = rest"
      and sn: "SetNext c it = Return (deliver c (it\<lparr>it_current := Some n, it_i := j\<rparr>) r)"
      by blast
    let ?it2 = "it\<lparr>it_current := Some n, it_i := j\<rparr>"
    let ?it3 = "snd (deliver c ?it2 r)"
    have mem: "(k, r) \<in> set (cursor_items c it)"
      using Cons x by (metis list.set_intros(1) set_dropWhileD)
    have live: "\<not> skipped c (clock (tx_db (it_tx it))) r"
      using Cons x by (metis (mono_tags, lifting) case_prod_conv hd_dropWhile list.distinct(1) list.sel(1))
    have tx2: "it_tx ?it2 = it_tx it0" using less(4) by simp
    have ok: "fst (deliver c it0 r) = (True, None)" using less(5) mem live less(4) by auto
    have d1: "fst (deliver c ?it2 r) = (True, None)" using deliver_tx(1)[OF tx2] ok by simp
    have d2: "it_entry ?it3 = it_entry (snd (deliver c it0 r))"
      using deliver_tx(2)[OF tx2 ok] .
    have sn': "SetNext c it = Return ((True, None), ?it3)"
      using sn d1 by (metis prod.collapse)
    have tx3: "it_tx ?it3 = it_tx it0" using tx2 by (simp add: deliver_frame)
    have wf3: "wf_cursor c ?it3" using wf by (simp add: wf_cursor_def deliver_frame)
    have ci3: "cursor_items c ?it3 = rest" using ci by (simp add: cursor_items_def deliver_frame)
    have len: "length (cursor_items c ?it3) < length (cursor_items c it)"
    proof -
      have "length (dropWhile ?P (cursor_items c it)) \<le> length (cursor_items c it)"
        by (rule length_dropWhile_le)
      then show ?thesis using Cons ci3 by simp
    qed
    have sub: "set rest \<subseteq> set (cursor_items c it)"
      using Cons by (metis set_dropWhileD set_subset_Cons subsetD subsetI)
    have op3: "\<not> tx_closed (it_tx ?it3)" using less(2) less(4) tx3 by simp
    have h3: "\<forall>(k, r) \<in> set (cursor_items c ?it3).
           \<not> skipped c (clock (tx_db (it_tx it0))) r \<longrightarrow> fst (deliver c it0 r) = (True, None)"
      using less(5) sub ci3 by auto
    from less(1)[OF len op3 wf3 tx3 h3] obtain it_end where
      ih: "collect c (Suc (length (live_items c ?it3))) ?it3 =
           (map (item_entry c it0) (live_items c ?it3),
            Some (Return ((False, None), it_end)))" by blast
    have l3: "live_items c ?it3 = filter ?Q rest"
      using ci3 tx3 less(4) by (simp add: live_items_def)
    have l: "live_items c it = (k, r) # filter ?Q rest"
      using li Cons x live by simp
    show ?thesis
      using ih sn' d2 unfolding l l3 by (simp add: item_entry_def Entry_of_def)
  qed
qed

lemma Seek_leaf:
  assumes "BPTreeIdx (tx_db (it_tx it)) (it_bucket it) = Some tree"
    and "FindLeaf tree key = Some cur"
  shows "Seek it key =
           (case seek_loop cur key 0 of
              Panic \<Rightarrow> Panic
            | Return j \<Rightarrow> Return (it\<lparr>it_current := Some cur, it_i := j\<rparr>))"
  using assms by (simp add: Seek_def split: outcome.splits)

lemma Seek_no_tree:
  "BPTreeIdx (tx_db (it_tx it)) (it_bucket it) = None \<Longrightarrow> Seek it key = Panic"
  by (simp add: Seek_def)

lemma Seek_no_leaf:
  "BPTreeIdx (tx_db (it_tx it)) (it_bucket it) = Some tree \<Longrightarrow> FindLeaf tree key = None \<Longrightarrow>
   Seek it key = Panic"
  by (simp add: Seek_def)

lemma Seek_frame:
  assumes "Seek it key = Return it'"
  shows "it_tx it' = it_tx it"
proof (cases "BPTreeIdx (tx_db (it_tx it)) (it_bucket it)")
  case None
  then show ?thesis using assms Seek_no_tree[of it key] by simp
next
  case (Some tree)
  show ?thesis
  proof (cases "FindLeaf tree key")
    case None
    then show ?thesis using assms Seek_no_leaf[OF Some, of key] by simp
  next
    case (Some cur)
    show ?thesis
      using assms Seek_leaf[OF \<open>BPTreeIdx (tx_db (it_tx it)) (it_bucket it) = Some tree\<close> Some]
      by (cases "seek_loop cur key 0") auto
  qed
qed

lemma first_seek_cases:
  "(\<exists>tree. BPTreeIdx (tx_db (it_tx it)) (it_bucket it) = Some tree \<and> it_current it = None \<and>
       first_seek c it = Seek it (FirstKey tree)) \<or>
   first_seek c it = Return it"
proof (cases "BPTreeIdx (tx_db (it_tx it)) (it_bucket it)")
  case None
  then show ?thesis by (simp add: first_seek_def Let_def)
next
  case (Some tree)
  then show ?thesis by (simp add: first_seek_def Let_def)
qed

lemma first_seek_frame:
  assumes "first_seek c it = Return it0"
  shows "it_tx it0 = it_tx it"
  using assms first_seek_cases[of it c] Seek_frame by auto

lemma SetNext_first:
  assumes "first_seek c it = Return it0" and "it_current it0 \<noteq> None"
    and "it_i it \<noteq> - 1" and "it_i it0 \<noteq> - 1" and "\<not> tx_closed (it_tx it)"
  shows "SetNext c it = SetNext c it0"
proof -
  have "first_seek c it0 = Return it0" using assms(2) by (auto simp: first_seek_def Let_def)
  then have p: "position c it = position c it0" using assms(1) by (simp add: position_def)
  have t: "it_tx it0 = it_tx it" using assms(1) by (rule first_seek_frame)
  have a: "SetNext c it =
          (case position c it of
               Panic \<Rightarrow> Panic
             | Return (Inl res) \<Rightarrow> Return res
             | Return (Inr it1) \<Rightarrow>
                 (case fetch it1 of
                    Panic \<Rightarrow> Panic
                  | Return (record, it2) \<Rightarrow>
                      if skipped c (clock (tx_db (it_tx it2))) record then SetNext c it2
                      else Return (deliver c it2 record)))"
    using assms(3,5) by (subst SetNext.simps) (simp add: checkTxIsClosed_def)
  have b: "SetNext c it0 =
          (case position c it0 of
               Panic \<Rightarrow> Panic
             | Return (Inl res) \<Rightarrow> Return res
             | Return (Inr it1) \<Rightarrow>
                 (case fetch it1 of
                    Panic \<Rightarrow> Panic
                  | Return (record, it2) \<Rightarrow>
                      if skipped c (clock (tx_db (it_tx it2))) record then SetNext c it2
                      else Return (deliver c it2 record)))"
    using assms(4,5) t by (subst SetNext.simps) (simp add: checkTxIsClosed_def)
  show ?thesis unfolding a b p ..
qed

lemma sorted_entries:
  assumes "sorted_wrt key_less xs" and "list_all (readable c it0) xs"
  shows "sorted_wrt entry_before (map (item_entry c it0) xs)"
proof -
  have "entry_before (item_entry c it0 a) (item_entry c it0 b)"
    if "a \<in> set xs" "b \<in> set xs" "key_less a b" for a b
  proof -
    from assms(2) that have "readable c it0 a" "readable c it0 b"
      by (auto simp: list_all_iff)
    then obtain ea eb where "item_entry c it0 a = Some ea" "Key ea = fst a"
      "item_entry c it0 b = Some eb" "Key eb = fst b"
      by (auto simp: readable_def)
    then show ?thesis using that(3) by (simp add: entry_before_def key_less_def)
  qed
  then have "sorted_wrt (\<lambda>a b. entry_before (item_entry c it0 a) (item_entry c it0 b)) xs"
    using assms(1) by (metis (mono_tags, lifting) sorted_wrt_mono_rel)
  then show ?thesis by (simp add: sorted_wrt_map)
qed

text \<open>
  C7. An iterator in an open transaction whose first call finds a well-formed leaf
  chain with strictly ascending keys, every record of which that is neither deleted
  nor expired is readable: the successful calls of \<^verbatim>\<open>SetNext\<close> yield the entries
  of exactly the records that are neither deleted nor expired, in the order of the
  chain, which is ascending key order, and the call after the last of them returns
  \<^verbatim>\<open>(false, nil)\<close>.
\<close>

theorem SetNext_ascending_live:
  assumes "\<not> tx_closed (it_tx it)" and "it_i it \<noteq> - 1"
    and "first_seek c it = Return it0" and "wf_cursor c it0"
    and "sorted_wrt key_less (cursor_items c it0)"
    and "list_all (readable c it0) (live_items c it0)"
  shows "(\<exists>it_end. collect c (Suc (length (live_items c it0))) it =
            (map (item_entry c it0) (live_items c it0),
             Some (Return ((False, None), it_end)))) \<and>
         sorted_wrt entry_before (map (item_entry c it0) (live_items c it0)) \<and>
         live_items c it0 =
           filter (\<lambda>(k, r). \<not> skipped c (clock (tx_db (it_tx it))) r) (cursor_items c it0)"
proof -
  have tx: "it_tx it0 = it_tx it" using assms(3) by (rule first_seek_frame)
  have cur: "it_current it0 \<noteq> None" and i0: "it_i it0 \<noteq> - 1"
    using assms(4) by (auto simp: wf_cursor_def split: option.splits)
  have sn: "SetNext c it = SetNext c it0"
    using SetNext_first[OF assms(3) cur assms(2) i0 assms(1)] .
  have op0: "\<not> tx_closed (it_tx it0)" using assms(1) tx by simp
  have rd: "\<forall>(k, r) \<in> set (cursor_items c it0).
           \<not> skipped c (clock (tx_db (it_tx it0))) r \<longrightarrow> fst (deliver c it0 r) = (True, None)"
    using assms(6) by (auto simp: list_all_iff live_items_def readable_def)
  from collect_live[OF op0 assms(4) refl rd] obtain it_end where
    "collect c (Suc (length (live_items c it0))) it0 =
       (map (item_entry c it0) (live_items c it0), Some (Return ((False, None), it_end)))"
    by blast
  then have 1: "collect c (Suc (length (live_items c it0))) it =
       (map (item_entry c it0) (live_items c it0), Some (Return ((False, None), it_end)))"
    using sn by simp
  have "sorted_wrt key_less (live_items c it0)"
    using assms(5) by (simp add: live_items_def sorted_wrt_filter)
  then have 2: "sorted_wrt entry_before (map (item_entry c it0) (live_items c it0))"
    using assms(6) by (rule sorted_entries)
  have 3: "live_items c it0 =
           filter (\<lambda>(k, r). \<not> skipped c (clock (tx_db (it_tx it))) r) (cursor_items c it0)"
    using tx by (simp add: live_items_def)
  from 1 2 3 show ?thesis by blast
qed


section \<open>A bucket with two leaves\<close>

text \<open>
  A store in \<^verbatim>\<open>HintKeyValAndRAMIdxMode\<close> at clock 10 whose bucket has the keys 1 to 4 in
  two leaves of a tree of order 3: the record of key 1 is deleted, the record of key 4
  has expired (ttl 1 from timestamp 0), the records of keys 2 and 3 are live.
\<close>

definition tree_consts :: Consts where
  "tree_consts =
     \<lparr>order = 3, HintKeyAndRAMIdxMode = 1, HintKeyValAndRAMIdxMode = 0, DataDeleteFlag = 0\<rparr>"

definition mk_record :: "8 word \<Rightarrow> 16 word \<Rightarrow> 32 word \<Rightarrow> Record" where
  "mk_record k flag ttl =
     \<lparr>rec_H = \<lparr>hint_Key = [k], FileID = 0,
               hint_Meta = \<lparr>Flag = flag, TTL = ttl, Timestamp = 0\<rparr>, DataPos = 0\<rparr>,
      rec_E = Some \<lparr>Key = [k], Value = [k + 100],
                    Meta = \<lparr>Flag = flag, TTL = ttl, Timestamp = 0\<rparr>\<rparr>\<rparr>"

definition leaf_b :: Node where
  "leaf_b = Node [[3], [4]] [PRecord (mk_record 3 1 0), PRecord (mk_record 4 1 1), PNil] 2"

definition leaf_a :: Node where
  "leaf_a = Node [[1], [2]] [PRecord (mk_record 1 0 0), PRecord (mk_record 2 1 0), PNode leaf_b] 2"

definition two_leaf_tree :: BPTree where
  "two_leaf_tree =
     \<lparr>FirstKey = [1],
      FindLeaf = (\<lambda>key. if compare key [3] < 0 then Some leaf_a else Some leaf_b)\<rparr>"

definition two_leaf_db :: DB where
  "two_leaf_db =
     \<lparr>opt = DefaultOptions\<lparr>EntryIdxMode := 0\<rparr>, BPTreeIdx = [''bucket'' \<mapsto> two_leaf_tree],
      getDataPath = (\<lambda>fid. ''''), getDataFile = (\<lambda>path size. Inl (ErrIO ''no file'')),
      clock = 10\<rparr>"

definition two_leaf_tx :: Tx where
  "two_leaf_tx = \<lparr>tx_closed = False, tx_db = two_leaf_db\<rparr>"

definition two_leaf_it :: Iterator where
  "two_leaf_it = newIterator two_leaf_tx ''bucket''"

definition at_leaf :: "Node \<Rightarrow> int \<Rightarrow> Iterator" where
  "at_leaf n j = two_leaf_it\<lparr>it_current := Some n, it_i := j\<rparr>"

lemma two_leaf_next:
  "next_leaf tree_consts leaf_a = Some leaf_b" "next_leaf tree_consts leaf_b = None"
  by (simp_all add: next_leaf_def index_def tree_consts_def leaf_a_def leaf_b_def)

lemma two_leaf_leaves:
  "leaves tree_consts leaf_b = [leaf_b]" "leaves tree_consts leaf_a = [leaf_a, leaf_b]"
proof -
  show b: "leaves tree_consts leaf_b = [leaf_b]"
    by (subst leaves.simps) (simp add: two_leaf_next)
  show "leaves tree_consts leaf_a = [leaf_a, leaf_b]"
    by (subst leaves.simps) (simp add: two_leaf_next b)
qed

lemma two_leaf_items:
  "leaf_items leaf_a = [([1], mk_record 1 0 0), ([2], mk_record 2 1 0)]"
  "leaf_items leaf_b = [([3], mk_record 3 1 0), ([4], mk_record 4 1 1)]"
  by (simp_all add: leaf_items_def leaf_a_def leaf_b_def numeral_2_eq_2)

lemma two_leaf_wf: "wf_leaf tree_consts leaf_a" "wf_leaf tree_consts leaf_b"
  by (simp_all add: wf_leaf_def tree_consts_def leaf_a_def leaf_b_def numeral_2_eq_2)

lemma two_leaf_skipped:
  "skipped tree_consts 10 (mk_record 1 0 0)" "\<not> skipped tree_consts 10 (mk_record 2 1 0)"
  "\<not> skipped tree_consts 10 (mk_record 3 1 0)" "skipped tree_consts 10 (mk_record 4 1 1)"
  by (simp_all add: skipped_def IsExpired_def tree_consts_def mk_record_def)

lemma two_leaf_frame:
  "it_tx (at_leaf n j) = two_leaf_tx" "it_current (at_leaf n j) = Some n" "it_i (at_leaf n j) = j"
  "it_tx two_leaf_it = two_leaf_tx" "it_i two_leaf_it = 0" "it_current two_leaf_it = None"
  "it_bucket two_leaf_it = ''bucket''"
  "tx_db two_leaf_tx = two_leaf_db" "\<not> tx_closed two_leaf_tx" "clock two_leaf_db = 10"
  "BPTreeIdx two_leaf_db ''bucket'' = Some two_leaf_tree"
  "EntryIdxMode (opt two_leaf_db) = 0"
  by (simp_all add: at_leaf_def two_leaf_it_def newIterator_def two_leaf_tx_def two_leaf_db_def)

lemma two_leaf_deliver:
  "it_tx it = two_leaf_tx \<Longrightarrow>
   deliver tree_consts it r = ((True, None), it\<lparr>it_entry := rec_E r\<rparr>)"
  by (simp add: deliver_def two_leaf_frame tree_consts_def)

lemma two_leaf_readable:
  "it_tx it = two_leaf_tx \<Longrightarrow> readable tree_consts it ([k], mk_record k f t)"
  by (simp add: readable_def item_entry_def two_leaf_deliver mk_record_def)

lemma two_leaf_cursor_items:
  "cursor_items tree_consts (at_leaf leaf_a 0) =
     [([1], mk_record 1 0 0), ([2], mk_record 2 1 0), ([3], mk_record 3 1 0), ([4], mk_record 4 1 1)]"
  by (simp add: cursor_items_def two_leaf_frame two_leaf_leaves two_leaf_items)

lemma two_leaf_live_items:
  "live_items tree_consts (at_leaf leaf_a 0) = [([2], mk_record 2 1 0), ([3], mk_record 3 1 0)]"
  by (simp add: live_items_def two_leaf_cursor_items two_leaf_frame two_leaf_skipped)

lemma two_leaf_wf_cursor: "wf_cursor tree_consts (at_leaf leaf_a 0)"
  by (simp add: wf_cursor_def two_leaf_frame two_leaf_leaves two_leaf_wf) (simp add: leaf_a_def)

lemma two_leaf_seek_loop:
  "seek_loop leaf_a [1] 0 = Return 0"
  by (subst seek_loop.simps) (simp add: leaf_a_def index_def)

lemma two_leaf_first_seek:
  "first_seek tree_consts two_leaf_it = Return (at_leaf leaf_a 0)"
proof -
  have "FindLeaf two_leaf_tree [1] = Some leaf_a" by (simp add: two_leaf_tree_def)
  then have "Seek two_leaf_it [1] = Return (at_leaf leaf_a 0)"
    using Seek_leaf[of two_leaf_it two_leaf_tree "[1]" leaf_a]
    by (simp add: two_leaf_frame two_leaf_seek_loop at_leaf_def)
  moreover have "FirstKey two_leaf_tree = [1]" by (simp add: two_leaf_tree_def)
  ultimately show ?thesis
    by (simp add: first_seek_def Let_def two_leaf_frame tree_consts_def)
qed

lemma two_leaf_sorted:
  "sorted_wrt key_less (cursor_items tree_consts (at_leaf leaf_a 0))"
  by (simp add: two_leaf_cursor_items key_less_def)

theorem SetNext_ascending_live_witness:
  "\<not> tx_closed (it_tx two_leaf_it) \<and> it_i two_leaf_it \<noteq> - 1 \<and>
   first_seek tree_consts two_leaf_it = Return (at_leaf leaf_a 0) \<and>
   wf_cursor tree_consts (at_leaf leaf_a 0) \<and>
   sorted_wrt key_less (cursor_items tree_consts (at_leaf leaf_a 0)) \<and>
   list_all (readable tree_consts (at_leaf leaf_a 0)) (live_items tree_consts (at_leaf leaf_a 0)) \<and>
   (\<exists>it_end. collect tree_consts 3 two_leaf_it =
      ([rec_E (mk_record 2 1 0), rec_E (mk_record 3 1 0)], Some (Return ((False, None), it_end)))) \<and>
   sorted_wrt entry_before [rec_E (mk_record 2 1 0), rec_E (mk_record 3 1 0)]"
proof -
  have h1: "\<not> tx_closed (it_tx two_leaf_it)" and h2: "it_i two_leaf_it \<noteq> - 1"
    by (simp_all add: two_leaf_frame)
  have h6: "list_all (readable tree_consts (at_leaf leaf_a 0))
             (live_items tree_consts (at_leaf leaf_a 0))"
    by (simp add: two_leaf_live_items two_leaf_readable two_leaf_frame)
  have e: "sorted_wrt entry_before [rec_E (mk_record 2 1 0), rec_E (mk_record 3 1 0)]"
    by (simp add: entry_before_def mk_record_def)
  have n: "Suc (length (live_items tree_consts (at_leaf leaf_a 0))) = 3"
    by (simp add: two_leaf_live_items)
  have m: "map (item_entry tree_consts (at_leaf leaf_a 0)) (live_items tree_consts (at_leaf leaf_a 0)) =
           [rec_E (mk_record 2 1 0), rec_E (mk_record 3 1 0)]"
    by (simp add: two_leaf_live_items item_entry_def two_leaf_deliver two_leaf_frame)
  have "\<exists>it_end. collect tree_consts (Suc (length (live_items tree_consts (at_leaf leaf_a 0)))) two_leaf_it =
          (map (item_entry tree_consts (at_leaf leaf_a 0)) (live_items tree_consts (at_leaf leaf_a 0)),
           Some (Return ((False, None), it_end)))"
    using SetNext_ascending_live[OF h1 h2 two_leaf_first_seek two_leaf_wf_cursor two_leaf_sorted h6]
    by (rule conjunct1)
  then have c: "\<exists>it_end. collect tree_consts 3 two_leaf_it =
      ([rec_E (mk_record 2 1 0), rec_E (mk_record 3 1 0)], Some (Return ((False, None), it_end)))"
    unfolding n m .
  show ?thesis
    using h1 h2 two_leaf_first_seek two_leaf_wf_cursor two_leaf_sorted h6 c e
    by (intro conjI)
qed

section \<open>Seek and the smallest key from the input on\<close>












subsection \<open>Seek on the two-leaf bucket\<close>







end
